theory Spec2Isabelle
  imports Complex_Main "HOL-Library.Log_Nat"
begin

section \<open>Machine arithmetic of the target\<close>

text \<open>
  The program is C for the VEX Cortex (ARM Cortex-M3, PROS).  Integers are modelled as
  \<open>int\<close> with every conversion to a narrower type written out; \<open>float\<close> and
  \<open>double\<close> values are modelled as the real numbers they denote, and every floating
  point operation is the exact operation followed by rounding to the nearest representable
  value, ties to even (IEEE 754 binary32 with a 24 bit significand, binary64 with 53 bits).
  The values that occur are zero or between \<open>2 powi - 14\<close> and \<open>2 powi 15\<close> in
  magnitude, far inside the normal range of both formats, so the exponent is left unbounded.
\<close>

subsection \<open>Integer conversions\<close>

definition int8 :: "int \<Rightarrow> int" where
  \<comment> \<open>conversion of an \<open>int\<close> to \<open>int8_t\<close> (wraps)\<close>
  "int8 x = (x + 128) mod 256 - 128"

definition int16 :: "int \<Rightarrow> int" where
  \<comment> \<open>conversion of an \<open>int\<close> to \<open>int16_t\<close> (wraps)\<close>
  "int16 x = (x + 32768) mod 65536 - 32768"

definition is_int8 :: "int \<Rightarrow> bool" where
  "is_int8 x = (- 128 \<le> x \<and> x \<le> 127)"

definition c_div :: "int \<Rightarrow> int \<Rightarrow> int" where
  \<comment> \<open>C's integer division truncates towards zero\<close>
  "c_div a b = sgn a * sgn b * (\<bar>a\<bar> div \<bar>b\<bar>)"

subsection \<open>Floating point rounding\<close>

definition round_half_even :: "real \<Rightarrow> int" where
  "round_half_even s =
     (let f = \<lfloor>s\<rfloor>; r = s - of_int f
      in if r < 1 / 2 then f
         else if 1 / 2 < r then f + 1
         else if even f then f else f + 1)"

definition ilog2 :: "real \<Rightarrow> int" where
  \<comment> \<open>the binary exponent of a positive number: \<open>2 powi ilog2 x \<le> x < 2 powi (ilog2 x + 1)\<close>\<close>
  "ilog2 x = (if 1 \<le> x then bitlen \<lfloor>x\<rfloor> - 1 else - bitlen (\<lceil>1 / x\<rceil> - 1))"

definition fround :: "nat \<Rightarrow> real \<Rightarrow> real" where
  \<comment> \<open>round to the nearest number with a \<open>p\<close> bit significand, ties to even\<close>
  "fround p x =
     (if x = 0 then 0
      else let e = ilog2 \<bar>x\<bar> - (int p - 1);
               n = round_half_even (\<bar>x\<bar> / 2 powi e)
           in sgn x * of_int n * 2 powi e)"

definition f32 :: "real \<Rightarrow> real" where
  "f32 = fround 24"

definition f64 :: "real \<Rightarrow> real" where
  "f64 = fround 53"

definition float_of_int :: "int \<Rightarrow> real" where
  \<comment> \<open>the conversion \<open>(float) n\<close>\<close>
  "float_of_int n = f32 (of_int n)"

definition trunc :: "real \<Rightarrow> int" where
  \<comment> \<open>a floating point value converted to an integer drops its fractional part\<close>
  "trunc x = (if 0 \<le> x then \<lfloor>x\<rfloor> else \<lceil>x\<rceil>)"

definition to_int8 :: "real \<Rightarrow> int option" where
  \<comment> \<open>undefined behaviour (\<open>None\<close>) when the integral part does not fit\<close>
  "to_int8 x = (let n = trunc x in if - 128 \<le> n \<and> n \<le> 127 then Some n else None)"

definition to_int16 :: "real \<Rightarrow> int option" where
  "to_int16 x = (let n = trunc x in if - 32768 \<le> n \<and> n \<le> 32767 then Some n else None)"

definition to_int32 :: "real \<Rightarrow> int option" where
  "to_int32 x =
     (let n = trunc x in if - 2147483648 \<le> n \<and> n \<le> 2147483647 then Some n else None)"

section \<open>Constants of \<open>opcontrol.c\<close>\<close>

definition MAX_SPEED :: int where
  \<comment> \<open>Modelled from the spec: \<open>MAX_SPEED\<close> is defined in \<open>main.h\<close>, which is not part of
      the sources at hand.  The spec calls it the ceiling of the motor command range and
      gives the analog input as a signed 8-bit value in \<open>[-MAX_SPEED, MAX_SPEED]\<close>; the
      platform's joystick and motor range is \<open>-127 .. 127\<close>.\<close>
  "MAX_SPEED = 127"

definition CLAW_SPEED :: int where
  "CLAW_SPEED = - 60"

definition CLAW_OPEN_DURATION :: int where
  "CLAW_OPEN_DURATION = 30"

definition GRIP_STRENGTH :: int where
  "GRIP_STRENGTH = - 40"

definition ARM_MAX_SPEED :: int where
  "ARM_MAX_SPEED = MAX_SPEED"

definition LOW_SPEED_DIVISOR :: int where
  "LOW_SPEED_DIVISOR = 2"

section \<open>The drive routine\<close>

text \<open>
  \<open>drive\<close>, lines 63 to 97: input shaping, mixing and normalisation.  The two values it
  computes are then handed to the velocity filter \<open>getfSpeed\<close> and on to \<open>motorSet\<close>
  (lines 100 to 106, both external); \<open>drive_speeds\<close> is the pair of values passed to
  the filter.
\<close>

definition squareInput_float :: "int \<Rightarrow> real" where
  \<comment> \<open>lines 71 to 73 (and 76 to 78): \<open>fabs\<close> works on \<open>double\<close>, so the square is
      computed in \<open>double\<close> and stored back into the \<open>float\<close>\<close>
  "squareInput_float x =
     (let m = f32 (float_of_int x / float_of_int MAX_SPEED);
          m = f32 (f64 (m * \<bar>m\<bar>))
      in f32 (m * float_of_int MAX_SPEED))"

definition squareInput :: "int \<Rightarrow> int option" where
  \<comment> \<open>line 74 (and 79): the \<open>float\<close> is stored into the \<open>int8_t\<close> parameter\<close>
  "squareInput x = to_int8 (squareInput_float x)"

definition shape_inputs :: "int \<Rightarrow> int \<Rightarrow> bool \<Rightarrow> (int \<times> int) option" where
  \<comment> \<open>lines 68 to 80\<close>
  "shape_inputs drive turn squareInputs =
     (if squareInputs
      then (case squareInput drive of
              None \<Rightarrow> None
            | Some d \<Rightarrow> (case squareInput turn of None \<Rightarrow> None | Some t \<Rightarrow> Some (d, t)))
      else Some (drive, turn))"

fun max_loop :: "int list \<Rightarrow> int \<Rightarrow> int" where
  \<comment> \<open>the loop of lines 86 to 91 over \<open>speed[0]\<close>, \<open>speed[1]\<close>\<close>
  "max_loop [] maxRaw = maxRaw"
| "max_loop (s # ss) maxRaw =
     (let absRawSpeed = int16 \<bar>s\<bar>
      in max_loop ss (if absRawSpeed > maxRaw then absRawSpeed else maxRaw))"

definition maxRawSpeed :: "int \<Rightarrow> int \<Rightarrow> int" where
  "maxRawSpeed left right = max_loop [left, right] 0"

definition needs_scaling :: "int \<Rightarrow> int \<Rightarrow> bool" where
  \<comment> \<open>the guard of line 93\<close>
  "needs_scaling left right = (maxRawSpeed left right > MAX_SPEED)"

definition scale_factor :: "int \<Rightarrow> int \<Rightarrow> real" where
  \<comment> \<open>line 94\<close>
  "scale_factor left right =
     f32 (float_of_int (maxRawSpeed left right) / float_of_int MAX_SPEED)"

definition div_assign :: "int \<Rightarrow> real \<Rightarrow> int option" where
  \<comment> \<open>\<open>speed[i] /= scale\<close>: a division by zero gives no finite value, and none that
      converts back to \<open>int16_t\<close>\<close>
  "div_assign speed scale =
     (if scale = 0 then None else to_int16 (f32 (float_of_int speed / scale)))"

definition normalize :: "int \<Rightarrow> int \<Rightarrow> (int \<times> int) option" where
  \<comment> \<open>lines 85 to 97\<close>
  "normalize left right =
     (if needs_scaling left right
      then (case div_assign left (scale_factor left right) of
              None \<Rightarrow> None
            | Some l \<Rightarrow>
                (case div_assign right (scale_factor left right) of
                   None \<Rightarrow> None
                 | Some r \<Rightarrow> Some (l, r)))
      else Some (left, right))"

definition mix_normalize :: "int \<Rightarrow> int \<Rightarrow> (int \<times> int) option" where
  \<comment> \<open>lines 82 to 97\<close>
  "mix_normalize drive turn = normalize (int16 (drive + turn)) (int16 (- drive + turn))"

definition drive_speeds :: "int \<Rightarrow> int \<Rightarrow> bool \<Rightarrow> (int \<times> int) option" where
  \<comment> \<open>lines 63 to 97; the parameters are \<open>int8_t\<close>\<close>
  "drive_speeds drive turn squareInputs =
     (case shape_inputs drive turn squareInputs of
        None \<Rightarrow> None
      | Some (d, t) \<Rightarrow> mix_normalize d t)"

section \<open>The control loop\<close>

text \<open>
  Modelled from the spec: the states a tracked button can be in are declared in
  \<open>togglebtn.h\<close>, which is not part of the sources at hand.  The loop compares with
  \<open>BUTTON_PRESSED\<close>, \<open>BUTTON_HELD\<close> and \<open>BUTTON_RELEASED\<close>; the spec names the fourth
  state, idle.  \<open>toggleBtnGet\<close> is external: what it returns for a button in a cycle is an
  input of the model, the same at every call within the cycle.
\<close>

datatype button_state = BUTTON_IDLE | BUTTON_PRESSED | BUTTON_HELD | BUTTON_RELEASED

record loop_state =
  lowSpeed :: bool
  closeClaw :: bool
  claw_i :: int

record inputs =
  btn8_right :: button_state
  btn8_left :: button_state
  btn8_down :: button_state
  axis_drive :: int
  axis_turn :: int
  axis_arm :: int
  dig6_up :: bool
  dig6_down :: bool

record outputs =
  drive_out :: "int \<times> int"
  claw_out :: int
  arm_left_out :: int
  arm_right_out :: int

definition operatorControl_init :: loop_state where
  \<comment> \<open>lines 129, 137, 138\<close>
  "operatorControl_init = \<lparr>lowSpeed = False, closeClaw = False, claw_i = 0\<rparr>"

definition turnSpeed_of :: "inputs \<Rightarrow> int" where
  \<comment> \<open>lines 154 to 158 (\<open>JOYSTICK_ARM\<close> is defined on line 43)\<close>
  "turnSpeed_of inp =
     (if dig6_up inp \<or> dig6_down inp then 0 else int8 (axis_turn inp))"

definition claw_ramp :: "button_state \<Rightarrow> loop_state \<Rightarrow> int \<times> loop_state" where
  \<comment> \<open>lines 178 to 194: the toggle and the open/close ramp; the first component is the
      command sent to the claw motor\<close>
  "claw_ramp down s =
     (let s1 = (if down = BUTTON_PRESSED then s\<lparr>closeClaw := \<not> closeClaw s\<rparr> else s)
      in if closeClaw s1
         then (if claw_i s1 < CLAW_OPEN_DURATION
               then (CLAW_SPEED, s1\<lparr>claw_i := int8 (claw_i s1 + 1)\<rparr>)
               else (GRIP_STRENGTH, s1))
         else if claw_i s1 > 0
         then (- CLAW_SPEED, s1\<lparr>claw_i := int8 (claw_i s1 - 1)\<rparr>)
         else (0, s1))"

definition claw_code :: "button_state \<Rightarrow> button_state \<Rightarrow> loop_state \<Rightarrow> int \<times> loop_state" where
  \<comment> \<open>lines 171 to 195; \<open>left\<close> and \<open>down\<close> are what \<open>toggleBtnGet\<close> returns this cycle
      for buttons 8L and 8D\<close>
  "claw_code left down s =
     (if left = BUTTON_HELD then (- CLAW_SPEED, s)
      else if left = BUTTON_RELEASED then (0, s\<lparr>closeClaw := False, claw_i := 0\<rparr>)
      else claw_ramp down s)"

fun claw_cycles :: "(button_state \<times> button_state) list \<Rightarrow> loop_state \<Rightarrow> int list \<times> loop_state" where
  \<comment> \<open>the claw block over consecutive cycles: the commands sent, and the state reached\<close>
  "claw_cycles [] s = ([], s)"
| "claw_cycles (b # bs) s =
     (let (m, s1) = claw_code (fst b) (snd b) s;
          (ms, s2) = claw_cycles bs s1
      in (m # ms, s2))"

definition armSpeed_of :: "bool \<Rightarrow> int \<Rightarrow> real" where
  \<comment> \<open>lines 199 to 204\<close>
  "armSpeed_of up axis =
     (if up
      then (let a = f32 (float_of_int axis / float_of_int MAX_SPEED)
            in f32 (f64 (a * f64 (\<bar>a\<bar> * of_int ARM_MAX_SPEED))))
      else 0)"

definition arm_commands :: "bool \<Rightarrow> real \<Rightarrow> (int \<times> int) option" where
  \<comment> \<open>lines 215 to 221: the commands for the left and the right arm motor\<close>
  "arm_commands low armSpeed =
     (case to_int32 armSpeed of
        None \<Rightarrow> None
      | Some l \<Rightarrow>
          (case to_int32 (- armSpeed) of
             None \<Rightarrow> None
           | Some r \<Rightarrow>
               Some (if low then (c_div l LOW_SPEED_DIVISOR, c_div r LOW_SPEED_DIVISOR)
                     else (l, r))))"

definition operatorControl_cycle :: "inputs \<Rightarrow> loop_state \<Rightarrow> (outputs \<times> loop_state) option" where
  \<comment> \<open>one pass through the body of the loop, lines 146 to 223\<close>
  "operatorControl_cycle inp s =
     (let s1 = (if btn8_right inp = BUTTON_PRESSED then s\<lparr>lowSpeed := \<not> lowSpeed s\<rparr> else s);
          driveSpeed = int8 (axis_drive inp);
          turnSpeed = turnSpeed_of inp;
          speeds = (if lowSpeed s1
                    then drive_speeds (int8 (c_div driveSpeed LOW_SPEED_DIVISOR))
                           (int8 (c_div turnSpeed LOW_SPEED_DIVISOR)) True
                    else drive_speeds driveSpeed turnSpeed True);
          claw = claw_code (btn8_left inp) (btn8_down inp) s1;
          arm = arm_commands (lowSpeed s1) (armSpeed_of (dig6_up inp) (axis_arm inp))
      in case speeds of
           None \<Rightarrow> None
         | Some sp \<Rightarrow>
             (case arm of
                None \<Rightarrow> None
              | Some a \<Rightarrow>
                  Some (\<lparr>drive_out = sp, claw_out = fst claw,
                         arm_left_out = fst a, arm_right_out = snd a\<rparr>, snd claw)))"

fun operatorControl_run :: "inputs list \<Rightarrow> loop_state \<Rightarrow> (outputs list \<times> loop_state) option" where
  \<comment> \<open>the loop of line 145 never ends; this is its run over the first cycles, one per
      element of the list of inputs\<close>
  "operatorControl_run [] s = Some ([], s)"
| "operatorControl_run (inp # rest) s =
     (case operatorControl_cycle inp s of
        None \<Rightarrow> None
      | Some (out, s1) \<Rightarrow>
          (case operatorControl_run rest s1 of
             None \<Rightarrow> None
           | Some (outs, s2) \<Rightarrow> Some (out # outs, s2)))"

definition quiet :: "button_state \<times> button_state \<Rightarrow> bool" where
  \<comment> \<open>a cycle in which button 8L neither is held nor was just released, and button 8D was
      not just pressed: \<open>closeClaw\<close> keeps its value\<close>
  "quiet b = (fst b \<noteq> BUTTON_HELD \<and> fst b \<noteq> BUTTON_RELEASED \<and> snd b \<noteq> BUTTON_PRESSED)"

definition counter_ok :: "loop_state \<Rightarrow> bool" where
  \<comment> \<open>the counter \<open>i\<close> of the claw is within \<open>0 .. CLAW_OPEN_DURATION\<close>\<close>
  "counter_ok s = (0 \<le> claw_i s \<and> claw_i s \<le> CLAW_OPEN_DURATION)"

section \<open>The shaping curve of the spec\<close>

definition shaping_spec :: "real \<Rightarrow> real" where
  \<comment> \<open>the spec's words: \<open>f(x) = sign(x) * (x/MAX)^2 * MAX\<close>\<close>
  "shaping_spec x = sgn x * (x / of_int MAX_SPEED)\<^sup>2 * of_int MAX_SPEED"

definition shaping_exceeds :: "int \<Rightarrow> bool" where
  \<comment> \<open>\<open>|f(x)| > |x|\<close> for the shaping of the code\<close>
  "shaping_exceeds x = (case squareInput x of None \<Rightarrow> False | Some y \<Rightarrow> \<bar>y\<bar> > \<bar>x\<bar>)"

definition sign_preserved :: "int \<Rightarrow> bool" where
  \<comment> \<open>\<open>sign(f(x)) = sign(x)\<close> for the shaping of the code\<close>
  "sign_preserved x = (case squareInput x of None \<Rightarrow> False | Some y \<Rightarrow> sgn y = sgn x)"

section \<open>Properties of the rounding\<close>

lemma round_half_even_error: "\<bar>of_int (round_half_even s) - s\<bar> \<le> 1 / 2"
  unfolding round_half_even_def Let_def by (auto; linarith)

lemma round_half_even_of_int: "round_half_even (of_int k) = k"
  by (simp add: round_half_even_def)

lemma ilog2_ge1:
  assumes "1 \<le> x"
  shows "2 powi (ilog2 x) \<le> x" and "x < 2 powi (ilog2 x + 1)"
proof -
  define n where "n = \<lfloor>x\<rfloor>"
  have n1: "1 \<le> n" using assms by (simp add: n_def le_floor_iff)
  then have n0: "0 < n" by simp
  have b1: "1 \<le> bitlen n" using n0 by (simp add: bitlen_alt_def)
  have lo: "2 ^ nat (bitlen n - 1) \<le> n" and hi: "n < 2 ^ nat (bitlen n)"
    using bitlen_bounds [OF n0] by simp_all
  have k: "ilog2 x = bitlen n - 1" using assms by (simp add: ilog2_def n_def)
  have "(2::real) powi (bitlen n - 1) = 2 ^ nat (bitlen n - 1)"
    using b1 by (simp add: power_int_def)
  also have "\<dots> = of_int (2 ^ nat (bitlen n - 1))" by simp
  also have "\<dots> \<le> of_int n" using lo by (simp only: of_int_le_iff)
  also have "\<dots> \<le> x" by (simp add: n_def)
  finally show "2 powi (ilog2 x) \<le> x" by (simp add: k)
  have "n + 1 \<le> 2 ^ nat (bitlen n)" using hi by simp
  then have "(of_int (n + 1) :: real) \<le> of_int (2 ^ nat (bitlen n))"
    by (simp only: of_int_le_iff)
  moreover have "x < of_int (n + 1)" by (simp add: n_def)
  moreover have "(2::real) powi (bitlen n) = 2 ^ nat (bitlen n)"
    using b1 by (simp add: power_int_def)
  ultimately show "x < 2 powi (ilog2 x + 1)" by (simp add: k)
qed

lemma ilog2_lt1:
  assumes "0 < x" "x < 1"
  shows "2 powi (ilog2 x) \<le> x" and "x < 2 powi (ilog2 x + 1)"
proof -
  define c where "c = \<lceil>1 / x\<rceil>"
  define b where "b = bitlen (c - 1)"
  have y1: "1 < 1 / x" using assms by simp
  have c2: "2 \<le> c" using y1 unfolding c_def by linarith
  then have c0: "0 < c - 1" by simp
  have b1: "1 \<le> b" using c0 by (simp add: b_def bitlen_alt_def)
  have lo: "2 ^ nat (b - 1) \<le> c - 1" and hi: "c - 1 < 2 ^ nat b"
    using bitlen_bounds [OF c0] by (simp_all add: b_def)
  have k: "ilog2 x = - b" using assms by (simp add: ilog2_def b_def c_def)
  have yc: "1 / x \<le> of_int c" and cy: "of_int (c - 1) < 1 / x"
    unfolding c_def by linarith+
  have "c \<le> 2 ^ nat b" using hi by simp
  then have "(of_int c :: real) \<le> of_int (2 ^ nat b)" by (simp only: of_int_le_iff)
  then have "(of_int c :: real) \<le> 2 ^ nat b" by simp
  then have "1 / x \<le> 2 ^ nat b" using yc by linarith
  then have "1 \<le> 2 ^ nat b * x" using assms by (simp add: field_simps)
  then have "1 / 2 ^ nat b \<le> x" by (simp add: field_simps)
  moreover have "(2::real) powi (- b) = 1 / 2 ^ nat b"
    using b1 by (simp add: power_int_def field_simps)
  ultimately show "2 powi (ilog2 x) \<le> x" by (simp add: k)
  have "(of_int (2 ^ nat (b - 1)) :: real) \<le> of_int (c - 1)"
    using lo by (simp only: of_int_le_iff)
  then have "(2::real) ^ nat (b - 1) \<le> of_int (c - 1)" by simp
  then have "2 ^ nat (b - 1) < 1 / x" using cy by linarith
  then have "2 ^ nat (b - 1) * x < 1" using assms by (simp add: field_simps)
  then have "x < 1 / 2 ^ nat (b - 1)" by (simp add: field_simps)
  moreover have "(2::real) powi (- b + 1) = 1 / 2 ^ nat (b - 1)"
  proof (cases "b = 1")
    case True then show ?thesis by simp
  next
    case False
    then have "- b + 1 < 0" using b1 by simp
    then show ?thesis by (simp add: power_int_def field_simps nat_diff_distrib)
  qed
  ultimately show "x < 2 powi (ilog2 x + 1)" by (simp add: k)
qed

lemma ilog2_bounds:
  assumes "0 < x"
  shows "2 powi (ilog2 x) \<le> x \<and> x < 2 powi (ilog2 x + 1)"
  using assms ilog2_ge1 [of x] ilog2_lt1 [of x] by (cases "1 \<le> x") auto

lemma fround_error: "\<bar>fround p x - x\<bar> \<le> \<bar>x\<bar> / 2 ^ p"
proof (cases "x = 0")
  case True then show ?thesis by (simp add: fround_def)
next
  case False
  define L where "L = ilog2 \<bar>x\<bar>"
  define e where "e = L - (int p - 1)"
  define s where "s = \<bar>x\<bar> / 2 powi e"
  define n where "n = round_half_even s"
  have pos: "(0::real) < 2 powi e" by simp
  have fr: "fround p x = sgn x * of_int n * 2 powi e"
    using False by (simp add: fround_def Let_def n_def s_def e_def L_def)
  have xs: "x = sgn x * s * 2 powi e"
    by (simp add: s_def sgn_real_def)
  have "fround p x - x = sgn x * (of_int n - s) * 2 powi e"
    by (subst xs, subst fr) (simp add: algebra_simps)
  then have "\<bar>fround p x - x\<bar> = \<bar>of_int n - s\<bar> * 2 powi e"
    using False by (simp add: abs_mult sgn_real_def)
  also have "\<dots> \<le> (1 / 2) * 2 powi e"
    using round_half_even_error [of s] pos unfolding n_def
    by (intro mult_right_mono) simp_all
  also have "\<dots> = 2 powi L / 2 ^ p"
    by (simp add: e_def power_int_diff power_int_add field_simps)
  also have "\<dots> \<le> \<bar>x\<bar> / 2 ^ p"
    using ilog2_bounds [of "\<bar>x\<bar>"] False
    by (intro divide_right_mono) (simp_all add: L_def)
  finally show ?thesis .
qed

lemma fround_minus: "fround p (- x) = - fround p x"
  by (simp add: fround_def Let_def sgn_real_def)

lemma fround_nonneg: "0 \<le> x \<Longrightarrow> 0 \<le> fround p x"
proof -
  assume x: "0 \<le> x"
  have "\<bar>x\<bar> * 1 \<le> \<bar>x\<bar> * 2 ^ p" by (intro mult_left_mono) simp_all
  then have "\<bar>x\<bar> / 2 ^ p \<le> \<bar>x\<bar>" by (simp add: field_simps)
  with fround_error [of p x] x show ?thesis by linarith
qed

lemma fround_of_int:
  assumes "\<bar>n\<bar> < 2 ^ p"
  shows "fround p (of_int n) = of_int n"
proof (cases "n = 0")
  case True then show ?thesis by (simp add: fround_def)
next
  case False
  define x :: real where "x = of_int n"
  define L where "L = ilog2 \<bar>x\<bar>"
  define e where "e = L - (int p - 1)"
  have x0: "x \<noteq> 0" and xpos: "0 < \<bar>x\<bar>" using False by (simp_all add: x_def)
  have "(of_int \<bar>n\<bar> :: real) < of_int (2 ^ p)" using assms by (simp only: of_int_less_iff)
  then have xlt: "\<bar>x\<bar> < 2 ^ p" by (simp add: x_def)
  have "2 powi L \<le> \<bar>x\<bar>" using ilog2_bounds [OF xpos] by (simp add: L_def)
  with xlt have "(2::real) powi L < 2 powi (int p)" by simp
  then have "L < int p" by (rule power_int_le_imp_less_exp [rotated]) simp_all
  then have e0: "e \<le> 0" by (simp add: e_def)
  define k where "k = nat (- e)"
  have pe: "(2::real) powi e = 1 / 2 ^ k"
    using e0 by (simp add: k_def power_int_def field_simps)
  have s: "\<bar>x\<bar> / 2 powi e = of_int (\<bar>n\<bar> * 2 ^ k)"
    by (simp add: pe x_def)
  have "fround p x = sgn x * of_int (round_half_even (\<bar>x\<bar> / 2 powi e)) * 2 powi e"
    using x0 by (simp add: fround_def Let_def e_def L_def)
  also have "\<dots> = sgn x * of_int (\<bar>n\<bar> * 2 ^ k) * 2 powi e"
    by (simp only: s round_half_even_of_int)
  also have "\<dots> = sgn x * of_int (\<bar>n\<bar> * 2 ^ k) * (1 / 2 ^ k)"
    by (simp only: pe)
  also have "\<dots> = x" by (simp add: x_def sgn_real_def)
  finally show ?thesis by (simp add: x_def)
qed

lemma fround_significand:
  assumes "x \<noteq> 0" and "0 < p"
  shows "\<exists>n e. fround p x = sgn x * of_int n * 2 powi e \<and> 2 ^ (p - 1) \<le> n \<and> n \<le> 2 ^ p"
proof -
  define L where "L = ilog2 \<bar>x\<bar>"
  define e where "e = L - (int p - 1)"
  define s where "s = \<bar>x\<bar> / 2 powi e"
  define n where "n = round_half_even s"
  have xpos: "0 < \<bar>x\<bar>" using assms(1) by simp
  have b: "2 powi L \<le> \<bar>x\<bar>" "\<bar>x\<bar> < 2 powi (L + 1)"
    using ilog2_bounds [OF xpos] by (simp_all add: L_def)
  have pe: "(0::real) < 2 powi e" by simp
  have "(2::real) powi L = 2 powi e * 2 ^ (p - 1)"
    using assms(2) by (simp add: e_def power_int_diff power_int_add of_nat_diff field_simps
        flip: power_int_of_nat)
  then have lo: "2 ^ (p - 1) \<le> s"
    using b(1) pe by (simp add: s_def field_simps)
  have "(2::real) powi (L + 1) = 2 powi e * 2 ^ p"
    by (simp add: e_def power_int_diff power_int_add field_simps flip: power_int_of_nat)
  then have hi: "s < 2 ^ p"
    using b(2) pe by (simp add: s_def field_simps)
  have "(of_int (2 ^ (p - 1)) :: real) \<le> s" using lo by simp
  then have fl_lo: "2 ^ (p - 1) \<le> \<lfloor>s\<rfloor>" by (simp only: le_floor_iff)
  have "s < of_int (2 ^ p)" using hi by simp
  then have fl_hi: "\<lfloor>s\<rfloor> < 2 ^ p" by (simp only: floor_less_iff)
  have "\<lfloor>s\<rfloor> \<le> n" "n \<le> \<lfloor>s\<rfloor> + 1"
    by (simp_all add: n_def round_half_even_def Let_def)
  then have "2 ^ (p - 1) \<le> n" "n \<le> 2 ^ p" using fl_lo fl_hi by linarith+
  moreover have "fround p x = sgn x * of_int n * 2 powi e"
    using assms(1) by (simp add: fround_def Let_def n_def s_def e_def L_def)
  ultimately show ?thesis by blast
qed

lemma f32_error: "\<bar>f32 x - x\<bar> \<le> \<bar>x\<bar> / 16777216"
  using fround_error [of 24 x] by (simp add: f32_def)

lemma f64_error: "\<bar>f64 x - x\<bar> \<le> \<bar>x\<bar> / 9007199254740992"
  using fround_error [of 53 x] by (simp add: f64_def)

lemma float_of_int_exact: "\<bar>n\<bar> < 16777216 \<Longrightarrow> float_of_int n = of_int n"
  using fround_of_int [of n 24] by (simp add: float_of_int_def f32_def)

text \<open>
  Concrete values are computed by rewriting with the definitions.  The \<open>float\<close> nearest
  to \<open>0.1\<close> is \<open>13421773 / 2 ^ 27\<close>; above \<open>2 ^ 24\<close> only the even integers are
  representable, and a tie goes to the even significand.
\<close>

lemmas float_eval =
  fround_def f32_def f64_def float_of_int_def ilog2_def round_half_even_def trunc_def
  to_int8_def to_int16_def to_int32_def compute_bitlen power_int_minus_divide Let_def

lemma f32_tenth: "f32 (1 / 10) = 13421773 / 134217728"
  by (simp add: float_eval)

lemma f32_ties_to_even: "f32 16777217 = 16777216" "f32 16777219 = 16777220"
  by (simp_all add: float_eval)

lemma f32_minus: "f32 (- x) = - f32 x"
  by (simp add: f32_def fround_minus)

lemma f64_minus: "f64 (- x) = - f64 x"
  by (simp add: f64_def fround_minus)

lemma f32_nonneg: "0 \<le> x \<Longrightarrow> 0 \<le> f32 x"
  by (simp add: f32_def fround_nonneg)

lemma f64_nonneg: "0 \<le> x \<Longrightarrow> 0 \<le> f64 x"
  by (simp add: f64_def fround_nonneg)

section \<open>Input shaping\<close>

lemma float_of_int_MAX_SPEED: "float_of_int MAX_SPEED = 127"
  by (simp add: MAX_SPEED_def float_of_int_exact)

lemma trunc_minus: "trunc (- y) = - trunc y"
  by (auto simp: trunc_def ceiling_def)

lemma squareInput_float_minus: "squareInput_float (- x) = - squareInput_float x"
  by (simp add: squareInput_float_def Let_def float_of_int_def f32_minus f64_minus)

lemma squareInput_float_error:
  assumes "0 \<le> x" "x \<le> 127"
  shows "\<bar>squareInput_float x - of_int (x * x) / 127\<bar> \<le> 1017 / 16777216"
    and "0 \<le> squareInput_float x"
proof -
  define a :: real where "a = of_int x / 127"
  define m1 where "m1 = f32 a"
  define m2d where "m2d = f64 (m1 * \<bar>m1\<bar>)"
  define m2 where "m2 = f32 m2d"
  define m3 where "m3 = f32 (m2 * 127)"
  have a0: "0 \<le> a" and a1: "a \<le> 1" using assms by (simp_all add: a_def)
  have fx: "float_of_int x = of_int x" using assms by (simp add: float_of_int_exact)
  have sq: "squareInput_float x = m3"
    by (simp add: squareInput_float_def Let_def fx float_of_int_MAX_SPEED
        m3_def m2_def m2d_def m1_def a_def)
  have m1_0: "0 \<le> m1" using a0 by (simp add: m1_def f32_nonneg)
  have e1: "\<bar>m1 - a\<bar> \<le> 1 / 16777216"
    using f32_error [of a] a0 a1 unfolding m1_def by linarith
  have "\<bar>m1 * m1 - a * a\<bar> = \<bar>m1 - a\<bar> * \<bar>m1 + a\<bar>"
    by (simp add: abs_mult [symmetric] algebra_simps)
  also have "\<dots> \<le> (1 / 16777216) * 3"
    using e1 a1 a0 m1_0 by (intro mult_mono) linarith+
  finally have e2: "\<bar>m1 * m1 - a * a\<bar> \<le> 3 / 16777216" by simp
  have aa: "0 \<le> a * a" "a * a \<le> 1" using a0 a1 by (simp_all add: mult_le_one)
  have p2: "0 \<le> m1 * m1" "m1 * m1 \<le> 2"
  proof -
    show "0 \<le> m1 * m1" by simp
    show "m1 * m1 \<le> 2" using e2 aa by linarith
  qed
  have m2d_0: "0 \<le> m2d" unfolding m2d_def using m1_0 by (intro f64_nonneg) simp
  have e3: "\<bar>m2d - m1 * m1\<bar> \<le> 1 / 16777216"
    using f64_error [of "m1 * m1"] p2 m1_0 unfolding m2d_def by simp
  have e4: "\<bar>m2 - m2d\<bar> \<le> 3 / 16777216"
    using f32_error [of m2d] e3 p2 m2d_0 unfolding m2_def by linarith
  have m2_0: "0 \<le> m2" unfolding m2_def using m2d_0 by (rule f32_nonneg)
  have e5: "\<bar>m2 - a * a\<bar> \<le> 7 / 16777216" using e2 e3 e4 by linarith
  have e6: "\<bar>m3 - m2 * 127\<bar> \<le> 128 / 16777216"
    using f32_error [of "m2 * 127"] e5 aa m2_0 unfolding m3_def by linarith
  have "a * a * 127 = of_int (x * x) / 127" by (simp add: a_def)
  with e5 e6 have "\<bar>m3 - of_int (x * x) / 127\<bar> \<le> 1017 / 16777216" by linarith
  then show "\<bar>squareInput_float x - of_int (x * x) / 127\<bar> \<le> 1017 / 16777216"
    by (simp add: sq)
  show "0 \<le> squareInput_float x"
    unfolding sq m3_def using m2_0 by (intro f32_nonneg) simp
qed

lemma square_not_multiple: "\<forall>x\<in>{1..126::int}. x * x mod 127 \<noteq> 0"
  by code_simp

lemma f32_one: "f32 1 = 1"
  using fround_of_int [of 1 24] by (simp add: f32_def)

lemma f64_one: "f64 1 = 1"
  using fround_of_int [of 1 53] by (simp add: f64_def)

lemma f32_127: "f32 127 = 127"
  using fround_of_int [of 127 24] by (simp add: f32_def)

lemma squareInput_float_MAX: "squareInput_float 127 = 127"
  by (simp add: squareInput_float_def Let_def float_of_int_MAX_SPEED float_of_int_exact
      f32_one f64_one f32_127)

lemma squareInput_closed_nonneg:
  assumes "0 \<le> x" "x \<le> 127"
  shows "squareInput x = Some (x * x div 127)"
proof (cases "x = 127")
  case True
  then show ?thesis
    by (simp add: squareInput_def squareInput_float_MAX to_int8_def trunc_def)
next
  case False
  define q where "q = x * x div 127"
  define k where "k = x * x mod 127"
  define m where "m = squareInput_float x"
  have x126: "x \<le> 126" using False assms by simp
  have k_range: "0 \<le> k" "k \<le> 126" by (simp_all add: k_def) 
  have split: "x * x = 127 * q + k" by (simp add: q_def k_def)
  then have "(of_int (x * x) :: real) = of_int (127 * q + k)" by simp
  then have real_split: "of_int (x * x) / 127 = of_int q + of_int k / (127 :: real)"
    by simp
  have err: "\<bar>m - of_int (x * x) / 127\<bar> \<le> 1017 / 16777216" and m0: "0 \<le> m"
    using squareInput_float_error [OF assms] by (simp_all add: m_def)
  define kk :: real where "kk = of_int k / 127"
  define X :: real where "X = of_int (x * x) / 127"
  have X: "X = of_int q + kk" using real_split by (simp add: X_def kk_def)
  have errX: "\<bar>m - X\<bar> \<le> 1017 / 16777216" using err by (simp add: X_def)
  have kk_hi: "kk \<le> 126 / 127" using k_range by (simp add: kk_def)
  have lower: "of_int q \<le> m"
  proof (cases "x = 0")
    case True
    then show ?thesis using m0 by (simp add: q_def)
  next
    case False
    then have "x \<in> {1..126}" using assms x126 by simp
    then have "k \<noteq> 0" using square_not_multiple by (simp add: k_def)
    then have "1 \<le> k" using k_range by simp
    then have "1 / 127 \<le> kk" by (simp add: kk_def)
    then show ?thesis using errX X by linarith
  qed
  have upper: "m < of_int q + 1"
    using errX X kk_hi by linarith
  have fl: "\<lfloor>m\<rfloor> = q" using lower upper by (intro floor_unique) simp_all
  have "x * x \<le> 126 * 126" using assms x126 by (intro mult_mono) simp_all
  then have "q \<le> 126 * 126 div 127" unfolding q_def by (intro zdiv_mono1) simp_all
  then have q_hi: "q \<le> 125" by simp
  have q_lo: "0 \<le> q" by (simp add: q_def pos_imp_zdiv_nonneg_iff)
  show ?thesis
    using fl m0 q_hi q_lo
    by (simp add: squareInput_def to_int8_def trunc_def m_def [symmetric] q_def [symmetric])
qed

lemma squareInput_closed:
  assumes "- 127 \<le> x" "x \<le> 127"
  shows "squareInput x = Some (sgn x * (x * x div 127))"
proof (cases "0 \<le> x")
  case True
  then show ?thesis using squareInput_closed_nonneg [of x] assms by (simp add: sgn_if)
next
  case False
  define y where "y = - x"
  have y: "0 < y" "y \<le> 127" "x = - y" using False assms by (simp_all add: y_def)
  define q where "q = y * y div 127"
  have "squareInput y = Some q" using squareInput_closed_nonneg [of y] y by (simp add: q_def)
  then have t: "trunc (squareInput_float y) = q" and r: "- 128 \<le> q \<and> q \<le> 127"
    by (auto simp: squareInput_def to_int8_def Let_def split: if_splits)
  have "0 \<le> q" by (simp add: q_def pos_imp_zdiv_nonneg_iff)
  then have "squareInput (- y) = Some (- q)"
    using t r by (simp add: squareInput_def to_int8_def squareInput_float_minus trunc_minus)
  then show ?thesis using y by (simp add: q_def sgn_if)
qed

section \<open>Mixing and normalisation\<close>

lemma int16_id: "- 32768 \<le> x \<Longrightarrow> x \<le> 32767 \<Longrightarrow> int16 x = x"
  by (simp add: int16_def)

lemma int16_le: "int16 x \<le> 32767"
proof -
  have "(x + 32768) mod 65536 < 65536" by simp
  then show ?thesis unfolding int16_def by linarith
qed

lemma maxRawSpeed_le: "maxRawSpeed l r \<le> 32767"
  using int16_le [of "\<bar>l\<bar>"] int16_le [of "\<bar>r\<bar>"]
  by (simp add: maxRawSpeed_def Let_def)

lemma maxRawSpeed_max:
  assumes "\<bar>l\<bar> \<le> 32767" "\<bar>r\<bar> \<le> 32767"
  shows "maxRawSpeed l r = max \<bar>l\<bar> \<bar>r\<bar>"
  using assms by (simp add: maxRawSpeed_def Let_def int16_id)

lemma scale_factor_ge_1:
  assumes "needs_scaling l r"
  shows "1 \<le> scale_factor l r"
proof -
  define mx where "mx = maxRawSpeed l r"
  define b :: real where "b = of_int mx / 127"
  have lo: "128 \<le> mx" using assms by (simp add: needs_scaling_def mx_def MAX_SPEED_def)
  have hi: "mx \<le> 32767" using maxRawSpeed_le [of l r] by (simp add: mx_def)
  have fm: "float_of_int mx = of_int mx" using lo hi by (simp add: float_of_int_exact)
  have sc: "scale_factor l r = f32 b"
    by (simp add: scale_factor_def mx_def [symmetric] fm float_of_int_MAX_SPEED b_def)
  have "(128::real) \<le> of_int mx" using lo by simp
  then have b_lo: "128 / 127 \<le> b" by (simp add: b_def)
  show ?thesis using f32_error [of b] b_lo unfolding sc by linarith
qed

lemma trunc_bound: "\<bar>y\<bar> < 128 \<Longrightarrow> \<bar>trunc y\<bar> \<le> 127"
  unfolding trunc_def by (auto; linarith)

lemma div_assign_bounded:
  assumes "needs_scaling l r" and "\<bar>s\<bar> \<le> maxRawSpeed l r"
  shows "\<exists>v. div_assign s (scale_factor l r) = Some v \<and> \<bar>v\<bar> \<le> MAX_SPEED"
proof -
  define mx where "mx = maxRawSpeed l r"
  define b :: real where "b = of_int mx / 127"
  define scale where "scale = scale_factor l r"
  define q :: real where "q = of_int s / scale"
  have lo: "128 \<le> mx" using assms by (simp add: needs_scaling_def mx_def MAX_SPEED_def)
  have hi: "mx \<le> 32767" using maxRawSpeed_le [of l r] by (simp add: mx_def)
  have s_mx: "\<bar>s\<bar> \<le> mx" using assms by (simp add: mx_def)
  have fm: "float_of_int mx = of_int mx" using lo hi by (simp add: float_of_int_exact)
  have fs: "float_of_int s = of_int s" using s_mx hi by (simp add: float_of_int_exact)
  have sc: "scale = f32 b"
    by (simp add: scale_def scale_factor_def mx_def [symmetric] fm float_of_int_MAX_SPEED b_def)
  have "(128::real) \<le> of_int mx" using lo by simp
  then have b_lo: "128 / 127 \<le> b" by (simp add: b_def)
  have scale_lo: "b - b / 16777216 \<le> scale"
    using f32_error [of b] b_lo unfolding sc by linarith
  have scale_pos: "0 < scale" using scale_lo b_lo by linarith
  have mx_b: "of_int mx = 127 * b" by (simp add: b_def)
  have "\<bar>of_int s :: real\<bar> \<le> of_int mx" using s_mx by linarith
  also have "\<dots> \<le> (255 / 2) * scale" using scale_lo b_lo mx_b by linarith
  finally have "\<bar>of_int s :: real\<bar> / scale \<le> 255 / 2"
    using scale_pos by (simp add: pos_divide_le_eq)
  then have q_hi: "\<bar>q\<bar> \<le> 255 / 2"
    using scale_pos by (simp add: q_def abs_divide)
  have "\<bar>f32 q\<bar> < 128" using f32_error [of q] q_hi by linarith
  then have t: "\<bar>trunc (f32 q)\<bar> \<le> 127" by (rule trunc_bound)
  have "div_assign s scale = Some (trunc (f32 q))"
    using scale_pos t by (simp add: div_assign_def to_int16_def Let_def fs q_def abs_le_iff)
  then show ?thesis using t by (simp add: scale_def MAX_SPEED_def)
qed

lemma normalize_passthrough:
  assumes "\<bar>l\<bar> \<le> MAX_SPEED" "\<bar>r\<bar> \<le> MAX_SPEED"
  shows "normalize l r = Some (l, r)"
proof -
  have "maxRawSpeed l r = max \<bar>l\<bar> \<bar>r\<bar>"
    using assms by (intro maxRawSpeed_max) (simp_all add: MAX_SPEED_def)
  then show ?thesis using assms by (auto simp: normalize_def needs_scaling_def max_def)
qed

lemma normalize_bounded:
  assumes "\<bar>l\<bar> \<le> 32767" "\<bar>r\<bar> \<le> 32767"
  shows "\<exists>l' r'. normalize l r = Some (l', r') \<and> \<bar>l'\<bar> \<le> MAX_SPEED \<and> \<bar>r'\<bar> \<le> MAX_SPEED"
proof (cases "needs_scaling l r")
  case True
  have mx: "maxRawSpeed l r = max \<bar>l\<bar> \<bar>r\<bar>" using assms by (rule maxRawSpeed_max)
  obtain l' where l': "div_assign l (scale_factor l r) = Some l'" "\<bar>l'\<bar> \<le> MAX_SPEED"
    using div_assign_bounded [OF True, of l] mx by auto
  obtain r' where r': "div_assign r (scale_factor l r) = Some r'" "\<bar>r'\<bar> \<le> MAX_SPEED"
    using div_assign_bounded [OF True, of r] mx by auto
  show ?thesis using True l' r' by (simp add: normalize_def)
next
  case False
  have mx: "maxRawSpeed l r = max \<bar>l\<bar> \<bar>r\<bar>" using assms by (rule maxRawSpeed_max)
  have "\<not> MAX_SPEED < max \<bar>l\<bar> \<bar>r\<bar>" using False mx by (simp add: needs_scaling_def)
  then have "max \<bar>l\<bar> \<bar>r\<bar> \<le> MAX_SPEED" by (simp only: not_less)
  then have "\<bar>l\<bar> \<le> MAX_SPEED" "\<bar>r\<bar> \<le> MAX_SPEED" by simp_all
  then show ?thesis by (simp add: normalize_passthrough)
qed

lemma mix_in_range:
  assumes "is_int8 d" "is_int8 t"
  shows "int16 (d + t) = d + t" "int16 (- d + t) = - d + t"
    "\<bar>d + t\<bar> \<le> 32767" "\<bar>- d + t\<bar> \<le> 32767"
  using assms by (auto simp: is_int8_def int16_id)

lemma mix_normalize_bounded:
  assumes "is_int8 d" "is_int8 t"
  shows "\<exists>l r. mix_normalize d t = Some (l, r) \<and> \<bar>l\<bar> \<le> MAX_SPEED \<and> \<bar>r\<bar> \<le> MAX_SPEED"
  unfolding mix_normalize_def mix_in_range [OF assms]
  using mix_in_range(3,4) [OF assms] by (rule normalize_bounded)

lemma squareInput_is_int8: "squareInput x = Some y \<Longrightarrow> is_int8 y"
  by (auto simp: squareInput_def to_int8_def is_int8_def Let_def split: if_splits)

section \<open>Shaping: the code against the curve\<close>

lemma shaping_spec_trunc:
  "trunc (shaping_spec (of_int x)) = sgn x * (x * x div 127)"
proof -
  have pos: "trunc (shaping_spec (of_int y)) = y * y div 127" if "0 \<le> y" for y
  proof -
    have "shaping_spec (of_int y) = of_int (y * y) / of_int 127"
      using that by (cases "y = 0") (simp_all add: shaping_spec_def MAX_SPEED_def power2_eq_square)
    moreover have "0 \<le> (of_int (y * y) :: real) / of_int 127" by simp
    ultimately show ?thesis
      unfolding trunc_def by (simp only: if_True floor_divide_of_int_eq)
  qed
  show ?thesis
  proof (cases "0 \<le> x")
    case True
    then show ?thesis using pos [of x] by (cases "x = 0") simp_all
  next
    case False
    have "shaping_spec (of_int x) = - shaping_spec (of_int (- x))"
      by (simp add: shaping_spec_def)
    then have "trunc (shaping_spec (of_int x)) = - trunc (shaping_spec (of_int (- x)))"
      by (simp only: trunc_minus)
    then have "trunc (shaping_spec (of_int x)) = - ((- x) * (- x) div 127)"
      using pos [of "- x"] False by simp
    then show ?thesis using False by simp
  qed
qed

lemma squareInput_refines:
  assumes "- 127 \<le> x" "x \<le> 127"
  shows "squareInput x = Some (trunc (shaping_spec (of_int x)))"
  using squareInput_closed [OF assms] by (simp only: shaping_spec_trunc)

lemma square_div_le:
  fixes x :: int
  assumes "- 127 \<le> x" "x \<le> 127"
  shows "x * x div 127 \<le> \<bar>x\<bar>" and "0 \<le> x * x div 127"
proof -
  have "x * x = \<bar>x\<bar> * \<bar>x\<bar>" by simp
  also have "\<dots> \<le> 127 * \<bar>x\<bar>" using assms by (intro mult_right_mono) simp_all
  finally have "x * x div 127 \<le> 127 * \<bar>x\<bar> div 127" by (intro zdiv_mono1) simp_all
  then show "x * x div 127 \<le> \<bar>x\<bar>" by simp
  show "0 \<le> x * x div 127" by (simp add: pos_imp_zdiv_nonneg_iff)
qed

lemma squareInput_le:
  assumes "- 127 \<le> x" "x \<le> 127"
  shows "\<exists>y. squareInput x = Some y \<and> \<bar>y\<bar> \<le> \<bar>x\<bar>"
  using squareInput_closed [OF assms] square_div_le [OF assms]
  by (simp add: abs_mult abs_sgn_eq)

lemma square_div_pos:
  fixes x :: int
  assumes "12 \<le> \<bar>x\<bar>"
  shows "0 < x * x div 127"
proof -
  have "12 * 12 \<le> \<bar>x\<bar> * \<bar>x\<bar>" using assms by (intro mult_mono) simp_all
  then have "144 \<le> x * x" by simp
  then have "144 div 127 \<le> x * x div 127" by (intro zdiv_mono1) simp_all
  then show ?thesis by simp
qed

lemma square_div_zero:
  fixes x :: int
  assumes "\<bar>x\<bar> \<le> 11"
  shows "x * x div 127 = 0"
proof -
  have "\<bar>x\<bar> * \<bar>x\<bar> \<le> 11 * 11" using assms by (intro mult_mono) simp_all
  then have "x * x < 127" by simp
  then show ?thesis by (simp add: div_pos_pos_trivial)
qed

text \<open>
  Outside the valid range: \<open>-128\<close> shapes to about \<open>-129.008\<close>, whose integral part
  no \<open>int8_t\<close> holds, so the conversion of line 74 is undefined.
\<close>

lemma squareInput_minus_128: "squareInput (- 128) = None"
  by (simp add: squareInput_def squareInput_float_def MAX_SPEED_def float_eval)

section \<open>The claims about the drive routine\<close>

text \<open>
  C1: whatever values \<open>drive\<close> and \<open>turn\<close> hold when they are mixed (they are
  \<open>int8_t\<close>, shaped or not), the two speeds that leave the normalisation and go to the
  filter are at most \<open>MAX_SPEED\<close> in magnitude.  With shaping switched on the inputs
  must be in the valid range \<open>-127 .. 127\<close>; \<open>-128\<close> would shape to \<open>-129\<close>, which
  no \<open>int8_t\<close> holds.
\<close>

theorem drive_speeds_bounded:
  assumes "is_int8 drive" and "is_int8 turn"
    and "squareInputs \<longrightarrow> - 127 \<le> drive \<and> - 127 \<le> turn"
  shows "\<exists>left right. drive_speeds drive turn squareInputs = Some (left, right)
           \<and> max \<bar>left\<bar> \<bar>right\<bar> \<le> MAX_SPEED"
proof -
  obtain d t where sh: "shape_inputs drive turn squareInputs = Some (d, t)"
    and d: "is_int8 d" and t: "is_int8 t"
  proof (cases squareInputs)
    case False
    then show ?thesis using that assms by (simp add: shape_inputs_def)
  next
    case True
    obtain d where 1: "squareInput drive = Some d"
      using squareInput_closed [of drive] assms True by (simp add: is_int8_def)
    obtain t where 2: "squareInput turn = Some t"
      using squareInput_closed [of turn] assms True by (simp add: is_int8_def)
    show ?thesis
      using that [of d t] True 1 2 squareInput_is_int8 [OF 1] squareInput_is_int8 [OF 2]
      by (simp add: shape_inputs_def)
  qed
  obtain l r where "mix_normalize d t = Some (l, r)" "\<bar>l\<bar> \<le> MAX_SPEED" "\<bar>r\<bar> \<le> MAX_SPEED"
    using mix_normalize_bounded [OF d t] by blast
  then show ?thesis using sh by (simp add: drive_speeds_def)
qed

lemma drive_speeds_example: "drive_speeds 127 64 True = Some (127, - 75)"
  by (simp add: drive_speeds_def shape_inputs_def squareInput_closed mix_normalize_def
      int16_def normalize_def needs_scaling_def scale_factor_def maxRawSpeed_def div_assign_def
      MAX_SPEED_def float_eval)

theorem drive_speeds_bounded_witness:
  "is_int8 127 \<and> is_int8 64 \<and> - 127 \<le> (127::int) \<and> - 127 \<le> (64::int)
   \<and> (\<exists>left right. drive_speeds 127 64 True = Some (left, right)
         \<and> max \<bar>left\<bar> \<bar>right\<bar> \<le> MAX_SPEED)
   \<and> drive_speeds 127 64 True = Some (127, - 75)"
  using drive_speeds_bounded [of 127 64 True] drive_speeds_example
  by (simp add: is_int8_def)

text \<open>
  C4, as stated: some \<open>x\<close> of the valid range has \<open>|f(x)| > |x|\<close>.  The code has no such
  input: over the whole range \<open>-MAX_SPEED .. MAX_SPEED\<close> the shaped value is never larger
  in magnitude than the raw one.
\<close>

theorem shaping_exceeds_nowhere:
  "\<not> (\<exists>x. - MAX_SPEED \<le> x \<and> x \<le> MAX_SPEED \<and> shaping_exceeds x)"
proof
  assume "\<exists>x. - MAX_SPEED \<le> x \<and> x \<le> MAX_SPEED \<and> shaping_exceeds x"
  then obtain x where x: "- 127 \<le> x" "x \<le> 127" and ex: "shaping_exceeds x"
    by (auto simp: MAX_SPEED_def)
  obtain y where "squareInput x = Some y" "\<bar>y\<bar> \<le> \<bar>x\<bar>"
    using squareInput_le [OF x] by blast
  then show False using ex by (simp add: shaping_exceeds_def)
qed

text \<open>
  C4, amended: for every \<open>x\<close> of the valid range the shaping returns a value, and
  \<open>|f(x)| \<le> |x|\<close>; the same holds of the curve \<open>sign(x) * (x/MAX)^2 * MAX\<close> the code
  rounds.
\<close>

theorem shaping_never_exceeds:
  assumes "- MAX_SPEED \<le> x" and "x \<le> MAX_SPEED"
  shows "(\<exists>y. squareInput x = Some y \<and> \<bar>y\<bar> \<le> \<bar>x\<bar>)
         \<and> \<bar>shaping_spec (of_int x)\<bar> \<le> \<bar>of_int x\<bar>"
proof -
  have x: "- 127 \<le> x" "x \<le> 127" using assms by (simp_all add: MAX_SPEED_def)
  define a :: real where "a = \<bar>of_int x\<bar>"
  have a: "0 \<le> a" "a \<le> 127" using x by (simp_all add: a_def)
  have "\<bar>shaping_spec (of_int x)\<bar> = a * a / 127"
    by (cases "x = 0")
      (simp_all add: shaping_spec_def MAX_SPEED_def a_def abs_mult power2_eq_square)
  also have "\<dots> \<le> a * 127 / 127" using a by (intro divide_right_mono mult_left_mono) simp_all
  finally have "\<bar>shaping_spec (of_int x)\<bar> \<le> \<bar>of_int x\<bar>" by (simp add: a_def)
  then show ?thesis using squareInput_le [OF x] by simp
qed

theorem shaping_never_exceeds_witness:
  "- MAX_SPEED \<le> 100 \<and> 100 \<le> MAX_SPEED
   \<and> (\<exists>y. squareInput 100 = Some y \<and> \<bar>y\<bar> \<le> \<bar>100\<bar>)
   \<and> \<bar>shaping_spec (of_int 100)\<bar> \<le> \<bar>of_int 100\<bar>
   \<and> squareInput 100 = Some 78"
  using shaping_never_exceeds [of 100] by (simp add: MAX_SPEED_def squareInput_closed)

text \<open>
  C5, as stated, asks \<open>sign(f(x)) = sign(x)\<close> on the whole range.  The shaped value is
  stored into an \<open>int8_t\<close>, which drops the fraction: \<open>f(1)\<close> is \<open>0\<close>, and its sign is
  not that of \<open>1\<close>.
\<close>

theorem sign_not_preserved_at_1: "squareInput 1 = Some 0 \<and> \<not> sign_preserved 1"
  by (simp add: sign_preserved_def squareInput_closed)

text \<open>
  C5, amended: \<open>f(0) = 0\<close>, \<open>f(MAX_SPEED) = MAX_SPEED\<close>, and for every \<open>x\<close> of the valid
  range \<open>f(-x) = -f(x)\<close>; \<open>f(x)\<close> is \<open>0\<close> when \<open>|x| \<le> 11\<close> and has the sign of \<open>x\<close>
  when \<open>|x| \<ge> 12\<close>, so it never has the opposite sign.  \<open>f(x)\<close> is the spec's curve with
  its fraction dropped.
\<close>

theorem shaping_properties:
  assumes "- MAX_SPEED \<le> x" and "x \<le> MAX_SPEED"
  shows "squareInput 0 = Some 0
         \<and> squareInput MAX_SPEED = Some MAX_SPEED
         \<and> squareInput (- x) = map_option uminus (squareInput x)
         \<and> squareInput x = Some (trunc (shaping_spec (of_int x)))
         \<and> (if \<bar>x\<bar> \<le> 11 then squareInput x = Some 0 else sign_preserved x)"
proof -
  have x: "- 127 \<le> x" "x \<le> 127" and mx: "- 127 \<le> - x" "- x \<le> 127"
    using assms by (simp_all add: MAX_SPEED_def)
  have 0: "squareInput 0 = Some 0" by (simp add: squareInput_closed)
  have 1: "squareInput MAX_SPEED = Some MAX_SPEED" by (simp add: MAX_SPEED_def squareInput_closed)
  have 2: "squareInput (- x) = map_option uminus (squareInput x)"
    by (simp add: squareInput_closed [OF x] squareInput_closed [OF mx])
  have 3: "squareInput x = Some (trunc (shaping_spec (of_int x)))"
    using x by (rule squareInput_refines)
  have 4: "squareInput x = Some 0" if "\<bar>x\<bar> \<le> 11"
    using that by (simp add: squareInput_closed [OF x] square_div_zero)
  have 5: "sign_preserved x" if "\<not> \<bar>x\<bar> \<le> 11"
  proof -
    have "0 < x * x div 127" using that by (intro square_div_pos) simp
    then show ?thesis
      by (simp add: sign_preserved_def squareInput_closed [OF x] sgn_mult)
  qed
  show ?thesis using 0 1 2 3 4 5 by simp
qed

theorem shaping_properties_witness:
  "- MAX_SPEED \<le> - 100 \<and> - 100 \<le> MAX_SPEED
   \<and> squareInput 0 = Some 0
   \<and> squareInput MAX_SPEED = Some MAX_SPEED
   \<and> squareInput (- (- 100)) = map_option uminus (squareInput (- 100))
   \<and> squareInput (- 100) = Some (trunc (shaping_spec (of_int (- 100))))
   \<and> sign_preserved (- 100)
   \<and> squareInput (- 100) = Some (- 78)"
  using shaping_properties [of "- 100"] by (simp add: MAX_SPEED_def squareInput_closed)

text \<open>
  C6: when the mixed values \<open>forward + turn\<close> and \<open>-forward + turn\<close> are both within
  \<open>MAX_SPEED\<close> in magnitude, the guard of the scaling is false and exactly the mixed values
  go to the filter.  \<open>forward\<close> and \<open>turn\<close> are the values that are mixed: the parameters
  themselves, or their shaped values when \<open>squareInputs\<close> is set.
\<close>

theorem normalization_noop:
  assumes "shape_inputs drive turn squareInputs = Some (forward, turn')"
    and "\<bar>forward + turn'\<bar> \<le> MAX_SPEED" and "\<bar>- forward + turn'\<bar> \<le> MAX_SPEED"
  shows "\<not> needs_scaling (forward + turn') (- forward + turn')
         \<and> mix_normalize forward turn' = Some (forward + turn', - forward + turn')
         \<and> drive_speeds drive turn squareInputs = Some (forward + turn', - forward + turn')"
proof -
  have r: "int16 (forward + turn') = forward + turn'"
    "int16 (- forward + turn') = - forward + turn'"
    using assms(2,3) by (simp_all add: MAX_SPEED_def int16_id)
  have mx: "maxRawSpeed (forward + turn') (- forward + turn')
            = max \<bar>forward + turn'\<bar> \<bar>- forward + turn'\<bar>"
    using assms(2,3) by (intro maxRawSpeed_max) (simp_all add: MAX_SPEED_def)
  have g: "\<not> needs_scaling (forward + turn') (- forward + turn')"
    unfolding needs_scaling_def mx using assms(2,3) by simp
  have n: "mix_normalize forward turn' = Some (forward + turn', - forward + turn')"
    unfolding mix_normalize_def r using assms(2,3) by (rule normalize_passthrough)
  show ?thesis using g n assms(1) by (simp add: drive_speeds_def)
qed

theorem normalization_noop_witness:
  "shape_inputs 100 50 True = Some (78, 19)
   \<and> \<bar>78 + 19\<bar> \<le> MAX_SPEED \<and> \<bar>- 78 + 19\<bar> \<le> MAX_SPEED
   \<and> \<not> needs_scaling (78 + 19) (- 78 + 19)
   \<and> mix_normalize 78 19 = Some (78 + 19, - 78 + 19)
   \<and> drive_speeds 100 50 True = Some (97, - 59)"
proof -
  have s: "shape_inputs 100 50 True = Some (78, 19)"
    by (simp add: shape_inputs_def squareInput_closed)
  have b: "\<bar>78 + 19\<bar> \<le> MAX_SPEED" "\<bar>- 78 + 19\<bar> \<le> MAX_SPEED"
    by (simp_all add: MAX_SPEED_def)
  show ?thesis using normalization_noop [OF s b] s b by simp
qed

text \<open>
  C8: with both inputs zero, shaped or not, the mixed output is zero and the guard of
  line 93 is false, so the division is not reached.  For any pair of speeds, when the guard
  holds the divisor \<open>scale\<close> is at least \<open>1\<close>: no division by zero.
\<close>

theorem zero_inputs_no_division:
  "drive_speeds 0 0 squareInputs = Some (0, 0)
   \<and> \<not> needs_scaling (int16 (0 + 0)) (int16 (- 0 + 0))
   \<and> (if needs_scaling left right then 1 \<le> scale_factor left right
       else normalize left right = Some (left, right))"
proof -
  have g: "\<not> needs_scaling 0 0"
    by (simp add: needs_scaling_def maxRawSpeed_def int16_def MAX_SPEED_def)
  have i: "int16 0 = 0" by (simp add: int16_def)
  have "shape_inputs 0 0 squareInputs = Some (0, 0)"
    by (simp add: shape_inputs_def squareInput_closed)
  then have d: "drive_speeds 0 0 squareInputs = Some (0, 0)"
    using g by (simp add: drive_speeds_def mix_normalize_def normalize_def i)
  show ?thesis using d g i by (simp add: scale_factor_ge_1 normalize_def)
qed

theorem zero_inputs_no_division_witness:
  "drive_speeds 0 0 True = Some (0, 0) \<and> needs_scaling 200 0 \<and> 1 \<le> scale_factor 200 0"
  using zero_inputs_no_division [of True 200 0]
  by (simp add: needs_scaling_def maxRawSpeed_def int16_def MAX_SPEED_def)

section \<open>The claw\<close>

lemma int8_id: "- 128 \<le> x \<Longrightarrow> x \<le> 127 \<Longrightarrow> int8 x = x"
  by (simp add: int8_def)

lemma claw_code_quiet_closing:
  assumes "quiet b" "closeClaw s" "0 \<le> claw_i s" "claw_i s \<le> 30"
  shows "claw_code (fst b) (snd b) s =
           (if claw_i s < 30 then (CLAW_SPEED, s\<lparr>claw_i := claw_i s + 1\<rparr>)
            else (GRIP_STRENGTH, s))"
  using assms
  by (simp add: quiet_def claw_code_def claw_ramp_def CLAW_OPEN_DURATION_def int8_id)

lemma claw_code_quiet_opening:
  assumes "quiet b" "\<not> closeClaw s" "0 \<le> claw_i s" "claw_i s \<le> 30"
  shows "claw_code (fst b) (snd b) s =
           (if 0 < claw_i s then (- CLAW_SPEED, s\<lparr>claw_i := claw_i s - 1\<rparr>)
            else (0, s))"
  using assms
  by (simp add: quiet_def claw_code_def claw_ramp_def CLAW_OPEN_DURATION_def int8_id)

lemma closing_run:
  assumes "list_all quiet bs" "closeClaw s" "0 \<le> claw_i s" "claw_i s \<le> 30"
  shows "claw_cycles bs s =
           (replicate (min (length bs) (nat (30 - claw_i s))) CLAW_SPEED
              @ replicate (length bs - nat (30 - claw_i s)) GRIP_STRENGTH,
            s\<lparr>claw_i := min 30 (claw_i s + int (length bs))\<rparr>)"
  using assms
proof (induction bs arbitrary: s)
  case Nil
  then show ?case by simp
next
  case (Cons b bs)
  have q: "quiet b" and qs: "list_all quiet bs" using Cons.prems(1) by simp_all
  show ?case
  proof (cases "claw_i s < 30")
    case True
    define s1 where "s1 = s\<lparr>claw_i := claw_i s + 1\<rparr>"
    have step: "claw_code (fst b) (snd b) s = (CLAW_SPEED, s1)"
      using claw_code_quiet_closing [OF q Cons.prems(2,3,4)] True by (simp add: s1_def)
    have s1: "closeClaw s1" "0 \<le> claw_i s1" "claw_i s1 \<le> 30" "claw_i s1 = claw_i s + 1"
      using Cons.prems True by (simp_all add: s1_def)
    have n: "nat (30 - claw_i s) = Suc (nat (30 - claw_i s1))"
      using s1 by simp
    have "s1\<lparr>claw_i := min 30 (claw_i s1 + int (length bs))\<rparr>
          = s\<lparr>claw_i := min 30 (claw_i s + int (length (b # bs)))\<rparr>"
      by (simp add: s1_def add.assoc)
    then show ?thesis
      using Cons.IH [OF qs s1(1,2,3)] step by (simp add: n)
  next
    case False
    then have c: "claw_i s = 30" using Cons.prems by simp
    have step: "claw_code (fst b) (snd b) s = (GRIP_STRENGTH, s)"
      using claw_code_quiet_closing [OF q Cons.prems(2,3,4)] c by simp
    show ?thesis
      using Cons.IH [OF qs Cons.prems(2,3,4)] step c by simp
  qed
qed

lemma opening_run:
  assumes "list_all quiet bs" "\<not> closeClaw s" "0 \<le> claw_i s" "claw_i s \<le> 30"
  shows "claw_cycles bs s =
           (replicate (min (length bs) (nat (claw_i s))) (- CLAW_SPEED)
              @ replicate (length bs - nat (claw_i s)) 0,
            s\<lparr>claw_i := max 0 (claw_i s - int (length bs))\<rparr>)"
  using assms
proof (induction bs arbitrary: s)
  case Nil
  then show ?case by simp
next
  case (Cons b bs)
  have q: "quiet b" and qs: "list_all quiet bs" using Cons.prems(1) by simp_all
  show ?case
  proof (cases "0 < claw_i s")
    case True
    define s1 where "s1 = s\<lparr>claw_i := claw_i s - 1\<rparr>"
    have step: "claw_code (fst b) (snd b) s = (- CLAW_SPEED, s1)"
      using claw_code_quiet_opening [OF q Cons.prems(2,3,4)] True by (simp add: s1_def)
    have s1: "\<not> closeClaw s1" "0 \<le> claw_i s1" "claw_i s1 \<le> 30" "claw_i s1 = claw_i s - 1"
      using Cons.prems True by (simp_all add: s1_def)
    have n: "nat (claw_i s) = Suc (nat (claw_i s1))"
      using s1 by simp
    have "s1\<lparr>claw_i := max 0 (claw_i s1 - int (length bs))\<rparr>
          = s\<lparr>claw_i := max 0 (claw_i s - int (length (b # bs)))\<rparr>"
      by (simp add: s1_def algebra_simps)
    then show ?thesis
      using Cons.IH [OF qs s1(1,2,3)] step by (simp add: n)
  next
    case False
    then have c: "claw_i s = 0" using Cons.prems by simp
    have step: "claw_code (fst b) (snd b) s = (0, s)"
      using claw_code_quiet_opening [OF q Cons.prems(2,3,4)] c by simp
    show ?thesis
      using Cons.IH [OF qs Cons.prems(2,3,4)] step c by simp
  qed
qed


lemma claw_code_counter_ok:
  assumes "counter_ok s"
  shows "counter_ok (snd (claw_code left down s))"
  using assms
  by (auto simp: counter_ok_def claw_code_def claw_ramp_def CLAW_OPEN_DURATION_def Let_def
      int8_id)

lemma cycle_counter_ok:
  assumes "operatorControl_cycle inp s = Some (out, s')" and "counter_ok s"
  shows "counter_ok s'"
proof -
  define s1 where
    "s1 = (if btn8_right inp = BUTTON_PRESSED then s\<lparr>lowSpeed := \<not> lowSpeed s\<rparr> else s)"
  have "counter_ok s1" using assms(2) by (simp add: s1_def counter_ok_def)
  then have "counter_ok (snd (claw_code (btn8_left inp) (btn8_down inp) s1))"
    by (rule claw_code_counter_ok)
  moreover have "s' = snd (claw_code (btn8_left inp) (btn8_down inp) s1)"
    using assms(1) unfolding operatorControl_cycle_def Let_def s1_def [symmetric]
    by (auto split: option.splits)
  ultimately show ?thesis by simp
qed

lemma run_counter_ok:
  assumes "operatorControl_run ins s = Some (outs, s')" and "counter_ok s"
  shows "counter_ok s'"
  using assms
proof (induction ins arbitrary: s outs)
  case Nil
  then show ?case by simp
next
  case (Cons inp ins)
  from Cons.prems(1) obtain out s1 outs1 where
    c: "operatorControl_cycle inp s = Some (out, s1)" and
    r: "operatorControl_run ins s1 = Some (outs1, s')"
    by (auto split: option.splits)
  have "counter_ok s1" using c Cons.prems(2) by (rule cycle_counter_ok)
  with r show ?case by (rule Cons.IH)
qed

lemma claw_cycles_append:
  "claw_cycles (as @ bs) s =
     (fst (claw_cycles as s) @ fst (claw_cycles bs (snd (claw_cycles as s))),
      snd (claw_cycles bs (snd (claw_cycles as s))))"
  by (induction as arbitrary: s) (simp_all add: split_beta)

lemma claw_cycles_held:
  "claw_cycles (map (Pair BUTTON_HELD) ds) s = (replicate (length ds) (- CLAW_SPEED), s)"
  by (induction ds) (simp_all add: claw_code_def)

section \<open>The claims about the control loop\<close>

text \<open>
  C2, as stated, has the counter and \<open>closeClaw\<close> reset in every cycle in which the
  claw-open button is held.  In the run below \<open>closeClaw\<close> is toggled on in the first cycle,
  button 8L goes down in the second and is held in the third: the motor is driven open
  (\<open>60\<close>) in the third cycle, but the counter still reads \<open>2\<close> and \<open>closeClaw\<close> is still
  set.
\<close>

theorem held_cycle_keeps_counter:
  "claw_cycles
     [(BUTTON_IDLE, BUTTON_PRESSED), (BUTTON_PRESSED, BUTTON_RELEASED), (BUTTON_HELD, BUTTON_IDLE)]
     operatorControl_init
   = ([- 60, - 60, 60], \<lparr>lowSpeed = False, closeClaw = True, claw_i = 2\<rparr>)"
  by (simp add: operatorControl_init_def claw_code_def claw_ramp_def CLAW_SPEED_def
      CLAW_OPEN_DURATION_def int8_def)

text \<open>
  C2, amended: in every cycle in which the tracked state of the claw-open button is
  \<open>HELD\<close> the claw motor is commanded \<open>-CLAW_SPEED\<close>, the fully-open direction, and the
  counter and \<open>closeClaw\<close> keep their values; in the cycle of its release edge the motor is
  stopped, the counter is reset to \<open>0\<close> and \<open>closeClaw\<close> to false.  Both hold whatever the
  toggle button and the state are: the two branches come before the toggle and the ramp.
  So a hold of any length followed by the release ends with the motor stopped, the counter
  at \<open>0\<close> and \<open>closeClaw\<close> false, from any state.
\<close>

theorem manual_open_override:
  "claw_code BUTTON_HELD down s = (- CLAW_SPEED, s)
   \<and> claw_code BUTTON_RELEASED down s = (0, s\<lparr>closeClaw := False, claw_i := 0\<rparr>)
   \<and> claw_cycles (map (Pair BUTTON_HELD) downs @ [(BUTTON_RELEASED, down)]) s
       = (replicate (length downs) (- CLAW_SPEED) @ [0], s\<lparr>closeClaw := False, claw_i := 0\<rparr>)
   \<and> - CLAW_SPEED = 60"
  by (simp add: claw_cycles_append claw_cycles_held) (simp add: claw_code_def CLAW_SPEED_def)

text \<open>
  C3: from counter \<open>0\<close> and \<open>closeClaw\<close> false, the cycle in which the toggle button is
  pressed and the cycles that follow it send the closing speed for exactly
  \<open>CLAW_OPEN_DURATION\<close> cycles, the counter going up by one each time, and the weaker grip
  speed in every cycle after that.  From the closed state (counter \<open>CLAW_OPEN_DURATION\<close>,
  \<open>closeClaw\<close> true) the next press of the toggle sends the opening speed for exactly
  \<open>CLAW_OPEN_DURATION\<close> cycles, the counter going down, and \<open>0\<close> after that.  Throughout,
  the claw-open button is neither held nor released and the toggle is not pressed again.
\<close>

theorem claw_timing:
  assumes "list_all quiet bs" and "left \<noteq> BUTTON_HELD" and "left \<noteq> BUTTON_RELEASED"
  shows "claw_cycles ((left, BUTTON_PRESSED) # bs) \<lparr>lowSpeed = low, closeClaw = False, claw_i = 0\<rparr>
         = (replicate (min (Suc (length bs)) (nat CLAW_OPEN_DURATION)) CLAW_SPEED
              @ replicate (Suc (length bs) - nat CLAW_OPEN_DURATION) GRIP_STRENGTH,
            \<lparr>lowSpeed = low, closeClaw = True,
              claw_i = min CLAW_OPEN_DURATION (int (Suc (length bs)))\<rparr>)
       \<and> claw_cycles ((left, BUTTON_PRESSED) # bs)
            \<lparr>lowSpeed = low, closeClaw = True, claw_i = CLAW_OPEN_DURATION\<rparr>
         = (replicate (min (Suc (length bs)) (nat CLAW_OPEN_DURATION)) (- CLAW_SPEED)
              @ replicate (Suc (length bs) - nat CLAW_OPEN_DURATION) 0,
            \<lparr>lowSpeed = low, closeClaw = False,
              claw_i = max 0 (CLAW_OPEN_DURATION - int (Suc (length bs)))\<rparr>)
       \<and> \<bar>GRIP_STRENGTH\<bar> < \<bar>CLAW_SPEED\<bar>"
proof -
  define c1 where "c1 = \<lparr>lowSpeed = low, closeClaw = True, claw_i = 1\<rparr>"
  define o1 where "o1 = \<lparr>lowSpeed = low, closeClaw = False, claw_i = 29\<rparr>"
  have first_close:
    "claw_code left BUTTON_PRESSED \<lparr>lowSpeed = low, closeClaw = False, claw_i = 0\<rparr>
     = (CLAW_SPEED, c1)"
    using assms(2,3)
    by (simp add: claw_code_def claw_ramp_def CLAW_OPEN_DURATION_def int8_def c1_def)
  have first_open:
    "claw_code left BUTTON_PRESSED \<lparr>lowSpeed = low, closeClaw = True, claw_i = 30\<rparr>
     = (- CLAW_SPEED, o1)"
    using assms(2,3)
    by (simp add: claw_code_def claw_ramp_def CLAW_OPEN_DURATION_def int8_def o1_def)
  have rest_close:
    "claw_cycles bs c1 =
       (replicate (min (length bs) 29) CLAW_SPEED @ replicate (length bs - 29) GRIP_STRENGTH,
        \<lparr>lowSpeed = low, closeClaw = True, claw_i = min 30 (1 + int (length bs))\<rparr>)"
    using closing_run [OF assms(1), of c1] by (simp add: c1_def)
  have rest_open:
    "claw_cycles bs o1 =
       (replicate (min (length bs) 29) (- CLAW_SPEED) @ replicate (length bs - 29) 0,
        \<lparr>lowSpeed = low, closeClaw = False, claw_i = max 0 (29 - int (length bs))\<rparr>)"
    using opening_run [OF assms(1), of o1] by (simp add: o1_def)
  have n: "nat CLAW_OPEN_DURATION = Suc 29" by (simp add: CLAW_OPEN_DURATION_def)
  have 1: "claw_cycles ((left, BUTTON_PRESSED) # bs)
             \<lparr>lowSpeed = low, closeClaw = False, claw_i = 0\<rparr>
           = (replicate (min (Suc (length bs)) (nat CLAW_OPEN_DURATION)) CLAW_SPEED
                @ replicate (Suc (length bs) - nat CLAW_OPEN_DURATION) GRIP_STRENGTH,
              \<lparr>lowSpeed = low, closeClaw = True,
                claw_i = min CLAW_OPEN_DURATION (int (Suc (length bs)))\<rparr>)"
    unfolding n by (simp add: first_close rest_close CLAW_OPEN_DURATION_def)
  have 2: "claw_cycles ((left, BUTTON_PRESSED) # bs)
             \<lparr>lowSpeed = low, closeClaw = True, claw_i = CLAW_OPEN_DURATION\<rparr>
           = (replicate (min (Suc (length bs)) (nat CLAW_OPEN_DURATION)) (- CLAW_SPEED)
                @ replicate (Suc (length bs) - nat CLAW_OPEN_DURATION) 0,
              \<lparr>lowSpeed = low, closeClaw = False,
                claw_i = max 0 (CLAW_OPEN_DURATION - int (Suc (length bs)))\<rparr>)"
    unfolding n by (simp add: first_open rest_open CLAW_OPEN_DURATION_def)
  have 3: "\<bar>GRIP_STRENGTH\<bar> < \<bar>CLAW_SPEED\<bar>" by (simp add: GRIP_STRENGTH_def CLAW_SPEED_def)
  show ?thesis using 1 2 3 by (simp only: simp_thms)
qed


theorem claw_timing_witness:
  "list_all quiet (replicate 40 (BUTTON_IDLE, BUTTON_IDLE))
   \<and> BUTTON_IDLE \<noteq> BUTTON_HELD \<and> BUTTON_IDLE \<noteq> BUTTON_RELEASED
   \<and> claw_cycles ((BUTTON_IDLE, BUTTON_PRESSED) # replicate 40 (BUTTON_IDLE, BUTTON_IDLE))
         \<lparr>lowSpeed = False, closeClaw = False, claw_i = 0\<rparr>
       = (replicate 30 (- 60) @ replicate 11 (- 40),
          \<lparr>lowSpeed = False, closeClaw = True, claw_i = 30\<rparr>)
   \<and> claw_cycles ((BUTTON_IDLE, BUTTON_PRESSED) # replicate 40 (BUTTON_IDLE, BUTTON_IDLE))
         \<lparr>lowSpeed = False, closeClaw = True, claw_i = 30\<rparr>
       = (replicate 30 60 @ replicate 11 0,
          \<lparr>lowSpeed = False, closeClaw = False, claw_i = 0\<rparr>)"
proof -
  have q: "list_all quiet (replicate 40 (BUTTON_IDLE, BUTTON_IDLE))"
    by (simp add: list_all_iff quiet_def)
  have l: "BUTTON_IDLE \<noteq> BUTTON_HELD" "BUTTON_IDLE \<noteq> BUTTON_RELEASED" by simp_all
  show ?thesis
    using claw_timing [OF q l, of False] q
    by (simp add: CLAW_OPEN_DURATION_def CLAW_SPEED_def GRIP_STRENGTH_def)
qed

text \<open>
  C7: the counter starts at \<open>0\<close>; the claw block, and with it a cycle of the loop, that
  starts with the counter in \<open>0 .. CLAW_OPEN_DURATION\<close> ends with it there, whichever
  branch is taken; so it is there in every state the loop reaches, after any number of
  cycles and whatever the inputs.
\<close>

theorem counter_bounded:
  "claw_i operatorControl_init = 0
   \<and> (counter_ok s \<longrightarrow> counter_ok (snd (claw_code left down s)))
   \<and> (counter_ok s \<and> operatorControl_cycle inp s = Some (out, s') \<longrightarrow> counter_ok s')
   \<and> (operatorControl_run ins operatorControl_init = Some (outs, t)
        \<longrightarrow> 0 \<le> claw_i t \<and> claw_i t \<le> CLAW_OPEN_DURATION)"
proof -
  have i: "counter_ok operatorControl_init"
    by (simp add: counter_ok_def operatorControl_init_def CLAW_OPEN_DURATION_def)
  have "counter_ok t" if "operatorControl_run ins operatorControl_init = Some (outs, t)"
    using that i by (rule run_counter_ok)
  then show ?thesis
    using cycle_counter_ok [of inp s out s'] claw_code_counter_ok [of s left down]
    by (auto simp: counter_ok_def operatorControl_init_def)
qed

lemma arm_idle: "arm_commands low (armSpeed_of False axis) = Some (0, 0)"
  by (simp add: arm_commands_def armSpeed_of_def to_int32_def trunc_def c_div_def)

lemma cycle_example:
  "operatorControl_cycle
     \<lparr>btn8_right = BUTTON_IDLE, btn8_left = BUTTON_IDLE, btn8_down = BUTTON_PRESSED,
      axis_drive = 127, axis_turn = 64, axis_arm = 0, dig6_up = False, dig6_down = False\<rparr>
     operatorControl_init
   = Some (\<lparr>drive_out = (127, - 75), claw_out = - 60, arm_left_out = 0, arm_right_out = 0\<rparr>,
           \<lparr>lowSpeed = False, closeClaw = True, claw_i = 1\<rparr>)"
  by (simp add: operatorControl_cycle_def operatorControl_init_def turnSpeed_of_def int8_def
      drive_speeds_example arm_idle claw_code_def claw_ramp_def CLAW_SPEED_def
      CLAW_OPEN_DURATION_def)

theorem counter_bounded_witness:
  "claw_i operatorControl_init = 0
   \<and> counter_ok operatorControl_init
   \<and> counter_ok (snd (claw_code BUTTON_IDLE BUTTON_PRESSED operatorControl_init))
   \<and> operatorControl_cycle
        \<lparr>btn8_right = BUTTON_IDLE, btn8_left = BUTTON_IDLE, btn8_down = BUTTON_PRESSED,
         axis_drive = 127, axis_turn = 64, axis_arm = 0, dig6_up = False, dig6_down = False\<rparr>
        operatorControl_init
      = Some (\<lparr>drive_out = (127, - 75), claw_out = - 60, arm_left_out = 0, arm_right_out = 0\<rparr>,
              \<lparr>lowSpeed = False, closeClaw = True, claw_i = 1\<rparr>)
   \<and> counter_ok \<lparr>lowSpeed = False, closeClaw = True, claw_i = 1\<rparr>
   \<and> operatorControl_run
        [\<lparr>btn8_right = BUTTON_IDLE, btn8_left = BUTTON_IDLE, btn8_down = BUTTON_PRESSED,
          axis_drive = 127, axis_turn = 64, axis_arm = 0, dig6_up = False, dig6_down = False\<rparr>]
        operatorControl_init
      = Some ([\<lparr>drive_out = (127, - 75), claw_out = - 60, arm_left_out = 0, arm_right_out = 0\<rparr>],
              \<lparr>lowSpeed = False, closeClaw = True, claw_i = 1\<rparr>)
   \<and> 0 \<le> claw_i \<lparr>lowSpeed = False, closeClaw = True, claw_i = 1\<rparr>
   \<and> claw_i \<lparr>lowSpeed = False, closeClaw = True, claw_i = 1\<rparr> \<le> CLAW_OPEN_DURATION"
  using counter_bounded
    [of operatorControl_init BUTTON_IDLE BUTTON_PRESSED
      "\<lparr>btn8_right = BUTTON_IDLE, btn8_left = BUTTON_IDLE, btn8_down = BUTTON_PRESSED,
        axis_drive = 127, axis_turn = 64, axis_arm = 0, dig6_up = False, dig6_down = False\<rparr>"
      "\<lparr>drive_out = (127, - 75), claw_out = - 60, arm_left_out = 0, arm_right_out = 0\<rparr>"
      "\<lparr>lowSpeed = False, closeClaw = True, claw_i = 1\<rparr>"
      "[\<lparr>btn8_right = BUTTON_IDLE, btn8_left = BUTTON_IDLE, btn8_down = BUTTON_PRESSED,
         axis_drive = 127, axis_turn = 64, axis_arm = 0, dig6_up = False, dig6_down = False\<rparr>]"
      "[\<lparr>drive_out = (127, - 75), claw_out = - 60, arm_left_out = 0, arm_right_out = 0\<rparr>]"
      "\<lparr>lowSpeed = False, closeClaw = True, claw_i = 1\<rparr>"]
    cycle_example
  by (simp add: counter_ok_def CLAW_OPEN_DURATION_def operatorControl_init_def)

text \<open>
  C9: in the analog arm variant (\<open>JOYSTICK_ARM\<close>, the one compiled), \<open>turnSpeed\<close> is \<open>0\<close>
  when the group-6 up or the group-6 down input is pressed, and the reading of the turn
  axis otherwise.  Only group-6 up moves the arm: without it the arm speed is \<open>0\<close> and both
  arm motors are commanded \<open>0\<close>, whatever group-6 down and the arm axis are.
\<close>

theorem turn_zeroed_by_arm_buttons:
  assumes "is_int8 (axis_turn inp)"
  shows "turnSpeed_of inp = (if dig6_up inp \<or> dig6_down inp then 0 else axis_turn inp)
         \<and> (\<not> dig6_up inp \<longrightarrow>
               armSpeed_of (dig6_up inp) (axis_arm inp) = 0
               \<and> arm_commands low (armSpeed_of (dig6_up inp) (axis_arm inp)) = Some (0, 0))"
proof -
  have "int8 (axis_turn inp) = axis_turn inp"
    using assms by (simp add: is_int8_def int8_id)
  then have "turnSpeed_of inp = (if dig6_up inp \<or> dig6_down inp then 0 else axis_turn inp)"
    by (simp add: turnSpeed_of_def)
  moreover have "armSpeed_of False (axis_arm inp) = 0" by (simp add: armSpeed_of_def)
  ultimately show ?thesis using arm_idle [of low "axis_arm inp"] by auto
qed

lemma arm_example: "arm_commands False (armSpeed_of True 100) = Some (78, - 78)"
  by (simp add: arm_commands_def armSpeed_of_def ARM_MAX_SPEED_def MAX_SPEED_def float_eval)

theorem turn_zeroed_by_arm_buttons_witness:
  "is_int8 90
   \<and> turnSpeed_of \<lparr>btn8_right = BUTTON_IDLE, btn8_left = BUTTON_IDLE, btn8_down = BUTTON_IDLE,
        axis_drive = 0, axis_turn = 90, axis_arm = 100, dig6_up = False, dig6_down = True\<rparr> = 0
   \<and> arm_commands False (armSpeed_of False 100) = Some (0, 0)
   \<and> turnSpeed_of \<lparr>btn8_right = BUTTON_IDLE, btn8_left = BUTTON_IDLE, btn8_down = BUTTON_IDLE,
        axis_drive = 0, axis_turn = 90, axis_arm = 100, dig6_up = False, dig6_down = False\<rparr> = 90
   \<and> turnSpeed_of \<lparr>btn8_right = BUTTON_IDLE, btn8_left = BUTTON_IDLE, btn8_down = BUTTON_IDLE,
        axis_drive = 0, axis_turn = 90, axis_arm = 100, dig6_up = True, dig6_down = False\<rparr> = 0
   \<and> arm_commands False (armSpeed_of True 100) = Some (78, - 78)"
  using
    turn_zeroed_by_arm_buttons
      [of "\<lparr>btn8_right = BUTTON_IDLE, btn8_left = BUTTON_IDLE, btn8_down = BUTTON_IDLE,
        axis_drive = 0, axis_turn = 90, axis_arm = 100, dig6_up = False, dig6_down = True\<rparr>" False]
    turn_zeroed_by_arm_buttons
      [of "\<lparr>btn8_right = BUTTON_IDLE, btn8_left = BUTTON_IDLE, btn8_down = BUTTON_IDLE,
        axis_drive = 0, axis_turn = 90, axis_arm = 100, dig6_up = False, dig6_down = False\<rparr>" False]
    turn_zeroed_by_arm_buttons
      [of "\<lparr>btn8_right = BUTTON_IDLE, btn8_left = BUTTON_IDLE, btn8_down = BUTTON_IDLE,
        axis_drive = 0, axis_turn = 90, axis_arm = 100, dig6_up = True, dig6_down = False\<rparr>" False]
    arm_example
  by (simp add: is_int8_def)

text \<open>
  C10: in the cycle in which the tracked state of the claw-open button is \<open>PRESSED\<close> the
  override is not taken: the claw block does what it does when that button is idle, the
  toggle and the ramp.  A press edge of the toggle button in that cycle flips \<open>closeClaw\<close>
  and the ramp moves by one step in the new direction.  The forced open command comes in
  the cycle in which the state is \<open>HELD\<close>, the one that follows.
\<close>

theorem pressed_cycle_runs_claw_logic:
  assumes "counter_ok s"
  shows "claw_code BUTTON_PRESSED down s = claw_code BUTTON_IDLE down s
         \<and> claw_code BUTTON_PRESSED down s = claw_ramp down s
         \<and> claw_code BUTTON_PRESSED BUTTON_PRESSED s =
             (if closeClaw s
              then (if 0 < claw_i s
                    then (- CLAW_SPEED, s\<lparr>closeClaw := False, claw_i := claw_i s - 1\<rparr>)
                    else (0, s\<lparr>closeClaw := False\<rparr>))
              else (if claw_i s < CLAW_OPEN_DURATION
                    then (CLAW_SPEED, s\<lparr>closeClaw := True, claw_i := claw_i s + 1\<rparr>)
                    else (GRIP_STRENGTH, s\<lparr>closeClaw := True\<rparr>)))
         \<and> claw_cycles [(BUTTON_PRESSED, down), (BUTTON_HELD, down')] s
             = ([fst (claw_code BUTTON_IDLE down s), - CLAW_SPEED],
                snd (claw_code BUTTON_IDLE down s))"
proof -
  have 1: "claw_code BUTTON_PRESSED d s0 = claw_ramp d s0" for d s0
    by (simp add: claw_code_def)
  have 2: "claw_code BUTTON_IDLE d s0 = claw_ramp d s0" for d s0
    by (simp add: claw_code_def)
  have 3: "claw_code BUTTON_HELD d s0 = (- CLAW_SPEED, s0)" for d s0
    by (simp add: claw_code_def)
  have c: "0 \<le> claw_i s" "claw_i s \<le> 30"
    using assms by (simp_all add: counter_ok_def CLAW_OPEN_DURATION_def)
  have 4: "claw_ramp BUTTON_PRESSED s =
             (if closeClaw s
              then (if 0 < claw_i s
                    then (- CLAW_SPEED, s\<lparr>closeClaw := False, claw_i := claw_i s - 1\<rparr>)
                    else (0, s\<lparr>closeClaw := False\<rparr>))
              else (if claw_i s < CLAW_OPEN_DURATION
                    then (CLAW_SPEED, s\<lparr>closeClaw := True, claw_i := claw_i s + 1\<rparr>)
                    else (GRIP_STRENGTH, s\<lparr>closeClaw := True\<rparr>)))"
    using c by (simp add: claw_ramp_def CLAW_OPEN_DURATION_def int8_id)
  show ?thesis by (simp add: 1 2 3 4 split_beta)
qed

theorem pressed_cycle_runs_claw_logic_witness:
  "counter_ok operatorControl_init
   \<and> claw_code BUTTON_PRESSED BUTTON_PRESSED operatorControl_init
       = claw_code BUTTON_IDLE BUTTON_PRESSED operatorControl_init
   \<and> claw_code BUTTON_PRESSED BUTTON_PRESSED operatorControl_init
       = (- 60, \<lparr>lowSpeed = False, closeClaw = True, claw_i = 1\<rparr>)
   \<and> claw_cycles [(BUTTON_PRESSED, BUTTON_PRESSED), (BUTTON_HELD, BUTTON_HELD)]
         operatorControl_init
       = ([- 60, 60], \<lparr>lowSpeed = False, closeClaw = True, claw_i = 1\<rparr>)"
proof -
  have i: "counter_ok operatorControl_init"
    by (simp add: counter_ok_def operatorControl_init_def CLAW_OPEN_DURATION_def)
  have r: "claw_code BUTTON_IDLE BUTTON_PRESSED operatorControl_init
           = (- 60, \<lparr>lowSpeed = False, closeClaw = True, claw_i = 1\<rparr>)"
    by (simp add: claw_code_def claw_ramp_def operatorControl_init_def CLAW_OPEN_DURATION_def
        CLAW_SPEED_def int8_def)
  note t = pressed_cycle_runs_claw_logic [OF i, of BUTTON_PRESSED BUTTON_HELD]
  from t have a: "claw_code BUTTON_PRESSED BUTTON_PRESSED operatorControl_init
                  = claw_code BUTTON_IDLE BUTTON_PRESSED operatorControl_init"
    by (rule conjunct1)
  have b: "claw_cycles [(BUTTON_PRESSED, BUTTON_PRESSED), (BUTTON_HELD, BUTTON_HELD)]
                    operatorControl_init
                  = ([fst (claw_code BUTTON_IDLE BUTTON_PRESSED operatorControl_init), - CLAW_SPEED],
                     snd (claw_code BUTTON_IDLE BUTTON_PRESSED operatorControl_init))"
    by (rule t [THEN conjunct2, THEN conjunct2, THEN conjunct2])
  show ?thesis unfolding a b r using i by (simp add: CLAW_SPEED_def)
qed

end
